theory Spec2Isabelle
  imports Main "HOL-Library.Sublist"
begin

section \<open>The web cache and access counter of \<open>0x02-redis_basic/web.py\<close>\<close>

text \<open>
  The module keeps two kinds of keys in one Redis database: for a URL \<open>u\<close> the page
  content under the key \<open>u\<close> itself (written with an expiry) and the access counter
  under \<open>count:u\<close>. The development below embeds \<open>wrapper\<close> (the body of the
  decorator \<open>count_and_cache\<close>), the undecorated body of \<open>get_page\<close> and
  \<open>get_count\<close> as state-passing functions over a model of the database, of the
  clock and of the HTTP requests made so far.

  Python \<open>str\<close> and \<open>bytes\<close> are both \<open>string\<close> here: a text stands for its
  UTF-8 bytes, so the client's encoding of a value and \<open>decode('utf-8')\<close> are the
  identity. The server is taken to be reachable (no connection failure of the store).
\<close>

subsection \<open>Exceptions and values\<close>

datatype exn =
    ResponseError    \<comment> \<open>redis: the server refused the command\<close>
  | ValueError       \<comment> \<open>\<open>int()\<close> on something that is not an integer literal\<close>
  | ConnectionError  \<comment> \<open>requests: the network failed\<close>
  | Timeout          \<comment> \<open>requests: the request timed out\<close>
  | InvalidSchema    \<comment> \<open>requests: the url is not an http or https url\<close>

text \<open>What \<open>requests.get\<close> hands back when it does not raise.\<close>

record response =
  status_code :: nat
  resp_text :: string

text \<open>A stored value with the time (in milliseconds) after which it is gone, if any.\<close>

record entry =
  payload :: string
  expire_at :: "nat option"

record world =
  db :: "string \<Rightarrow> entry option"
  clock :: nat
  fetched :: "string list"

definition fresh :: world where
  "fresh = \<lparr>db = (\<lambda>k. None), clock = 0, fetched = []\<rparr>"

definition elapse :: "nat \<Rightarrow> world \<Rightarrow> world" where
  "elapse d w = w\<lparr>clock := clock w + d\<rparr>"

subsection \<open>Decimal integers\<close>

definition is_digit :: "char \<Rightarrow> bool" where
  "is_digit c = (48 \<le> (of_char c :: nat) \<and> (of_char c :: nat) \<le> 57)"

definition digit_char :: "nat \<Rightarrow> char" where
  "digit_char d = char_of (48 + d)"

fun digits_acc :: "nat \<Rightarrow> string \<Rightarrow> nat option" where
  "digits_acc a [] = Some a"
| "digits_acc a (c # cs) =
     (if is_digit c then digits_acc (10 * a + (of_char c - 48)) cs else None)"

definition digits_to_nat :: "string \<Rightarrow> nat option" where
  "digits_to_nat s = (if s = [] then None else digits_acc 0 s)"

fun show_nat :: "nat \<Rightarrow> string" where
  "show_nat n = (if n < 10 then [digit_char n] else show_nat (n div 10) @ [digit_char (n mod 10)])"

declare show_nat.simps [simp del]

definition show_int :: "int \<Rightarrow> string" where
  "show_int i = (if i < 0 then CHR ''-'' # show_nat (nat (- i)) else show_nat (nat i))"

text \<open>
  Python's \<open>int(b)\<close> on a bytes object, base ten: surrounding ASCII whitespace is
  dropped, one sign is allowed, and single underscores may separate digits. Anything
  else raises \<open>ValueError\<close>.
\<close>

definition py_isspace :: "char \<Rightarrow> bool" where
  "py_isspace c = (c \<in> set [CHR '' '', CHR 0x09, CHR 0x0A, CHR 0x0B, CHR 0x0C, CHR 0x0D])"

definition py_strip :: "string \<Rightarrow> string" where
  "py_strip s = rev (dropWhile py_isspace (rev (dropWhile py_isspace s)))"

fun digit_groups :: "bool \<Rightarrow> string \<Rightarrow> bool" where
  "digit_groups prev [] = prev"
| "digit_groups prev (c # cs) =
     (if c = CHR ''_'' then prev \<and> digit_groups False cs else digit_groups True cs)"

definition split_sign :: "string \<Rightarrow> int \<times> string" where
  "split_sign s =
     (case s of
        [] \<Rightarrow> (1, s)
      | c # r \<Rightarrow> if c = CHR ''-'' then (- 1, r) else if c = CHR ''+'' then (1, r) else (1, s))"

definition py_int :: "string \<Rightarrow> exn + int" where
  "py_int b =
     (case split_sign (py_strip b) of
        (sign, ds) \<Rightarrow>
          if digit_groups False ds
          then (case digits_to_nat (filter (\<lambda>c. c \<noteq> CHR ''_'') ds) of
                  None \<Rightarrow> Inl ValueError
                | Some n \<Rightarrow> Inr (sign * int n))
          else Inl ValueError)"

subsection \<open>The Redis commands the module uses\<close>

text \<open>
  Modelled from the spec: the Redis server and its client library are not part of the
  repository. Section 4.1 of the specification gives the contract of the three
  commands: \<open>increment\<close> adds one to the integer stored at the key, creating it at
  0 if absent, and returns the new value; \<open>get\<close> returns the current value, or absent
  if missing or expired; \<open>setWithExpiry\<close> stores the value, overwriting any prior
  one, with an expiry that many seconds from now. Counters are unbounded and stored as
  their decimal representation (sections 3 and 6). Where the contract is silent the
  model follows the Redis documentation: \<open>INCR\<close> on a value that is not the
  canonical decimal form of an integer is refused and changes nothing, \<open>INCR\<close>
  leaves the expiry of an existing key as it is, \<open>SETEX\<close> refuses a time to live
  that is not positive, and a key is gone once the clock has passed its expiry.
\<close>

definition live :: "nat \<Rightarrow> entry \<Rightarrow> bool" where
  "live now e = (case expire_at e of None \<Rightarrow> True | Some t \<Rightarrow> now \<le> t)"

definition lookup :: "string \<Rightarrow> world \<Rightarrow> entry option" where
  "lookup k w = (case db w k of None \<Rightarrow> None | Some e \<Rightarrow> if live (clock w) e then Some e else None)"

definition redis_get :: "string \<Rightarrow> world \<Rightarrow> string option" where
  "redis_get k w = map_option payload (lookup k w)"

definition string2ll :: "string \<Rightarrow> int option" where
  "string2ll s =
     (case (case s of [] \<Rightarrow> (1, s) | c # r \<Rightarrow> if c = CHR ''-'' then (- 1, r) else (1 :: int, s)) of
        (sign, ds) \<Rightarrow>
          (case digits_to_nat ds of
             None \<Rightarrow> None
           | Some n \<Rightarrow> if show_int (sign * int n) = s then Some (sign * int n) else None))"

definition redis_incr :: "string \<Rightarrow> world \<Rightarrow> world \<times> (exn + int)" where
  "redis_incr k w =
     (case lookup k w of
        None \<Rightarrow> (w\<lparr>db := (db w)(k := Some \<lparr>payload = show_int 1, expire_at = None\<rparr>)\<rparr>, Inr 1)
      | Some e \<Rightarrow>
          (case string2ll (payload e) of
             None \<Rightarrow> (w, Inl ResponseError)
           | Some n \<Rightarrow>
               (w\<lparr>db := (db w)(k := Some (e\<lparr>payload := show_int (n + 1)\<rparr>))\<rparr>, Inr (n + 1))))"

definition redis_setex :: "string \<Rightarrow> int \<Rightarrow> string \<Rightarrow> world \<Rightarrow> world \<times> (exn + unit)" where
  "redis_setex k ttl v w =
     (if ttl \<le> 0 then (w, Inl ResponseError)
      else (w\<lparr>db := (db w)(k := Some \<lparr>payload = v, expire_at = Some (clock w + 1000 * nat ttl)\<rparr>)\<rparr>,
            Inr ()))"

subsection \<open>The HTTP request\<close>

text \<open>
  \<open>requests.get(url)\<close> sends a request only for a url that starts with
  \<open>http://\<close> or \<open>https://\<close>. For any other url it raises before anything is
  sent (\<open>InvalidSchema\<close>, or \<open>MissingSchema\<close> when the url has no scheme at all;
  the two are one exception here). For an http url it either raises or returns a
  response, whatever its status code; what happens then is an input of the model
  (\<open>net\<close>). Every call is recorded in \<open>fetched\<close>.
\<close>

definition http_url :: "string \<Rightarrow> bool" where
  "http_url url = (prefix ''http://'' url \<or> prefix ''https://'' url)"

definition requests_outcome :: "exn + response \<Rightarrow> string \<Rightarrow> exn + response" where
  "requests_outcome net url = (if http_url url then net else Inl InvalidSchema)"

definition requests_get :: "exn + response \<Rightarrow> string \<Rightarrow> world \<Rightarrow> world \<times> (exn + response)" where
  "requests_get net url w = (w\<lparr>fetched := fetched w @ [url]\<rparr>, requests_outcome net url)"

subsection \<open>The module\<close>

definition count_key :: "string \<Rightarrow> string" where
  "count_key url = ''count:'' @ url"

text \<open>Lines 56-57: the undecorated body of \<open>get_page\<close>.\<close>

definition get_page_body :: "exn + response \<Rightarrow> string \<Rightarrow> world \<Rightarrow> world \<times> (exn + string)" where
  "get_page_body net url w =
     (case requests_get net url w of
        (w', Inl e) \<Rightarrow> (w', Inl e)
      | (w', Inr response) \<Rightarrow> (w', Inr (resp_text response)))"

text \<open>Lines 38-42: the path taken when the cached value is \<open>None\<close> or empty.\<close>

definition fetch_and_cache ::
  "int \<Rightarrow> (string \<Rightarrow> world \<Rightarrow> world \<times> (exn + string)) \<Rightarrow> string \<Rightarrow> world \<Rightarrow> world \<times> (exn + string)" where
  "fetch_and_cache ttl func url w =
     (case func url w of
        (w', Inl e) \<Rightarrow> (w', Inl e)
      | (w', Inr page_content) \<Rightarrow>
          (case redis_setex url ttl page_content w' of
             (w'', Inl e) \<Rightarrow> (w'', Inl e)
           | (w'', Inr _) \<Rightarrow> (w'', Inr page_content)))"

text \<open>
  Lines 31-42. The closure variables \<open>ttl\<close> and \<open>func\<close> are arguments. The test
  \<open>if cached_page:\<close> is Python truthiness: \<open>None\<close> and the empty bytes object are
  both false.
\<close>

definition wrapper ::
  "int \<Rightarrow> (string \<Rightarrow> world \<Rightarrow> world \<times> (exn + string)) \<Rightarrow> string \<Rightarrow> world \<Rightarrow> world \<times> (exn + string)" where
  "wrapper ttl func url w =
     (let cache_key = count_key url in
      case redis_incr cache_key w of
        (w', Inl e) \<Rightarrow> (w', Inl e)
      | (w', Inr _) \<Rightarrow>
          (case redis_get url w' of
             None \<Rightarrow> fetch_and_cache ttl func url w'
           | Some cached_page \<Rightarrow>
               if cached_page \<noteq> [] then (w', Inr cached_page)
               else fetch_and_cache ttl func url w'))"

definition count_and_cache ::
  "int \<Rightarrow> (string \<Rightarrow> world \<Rightarrow> world \<times> (exn + string)) \<Rightarrow> string \<Rightarrow> world \<Rightarrow> world \<times> (exn + string)" where
  "count_and_cache ttl func = wrapper ttl func"

text \<open>
  Line 46: \<open>get_page\<close> is its body under \<open>count_and_cache(ttl=10)\<close>. The
  model binds the decorator and the wrapped method to the one \<open>Cache\<close> instance,
  whose connection is the \<open>world\<close>. (As the class is written, line 46 calls
  \<open>count_and_cache\<close> without an instance and \<open>wrapper\<close> takes no
  \<open>self\<close>; how Python binds these names is not part of the model.)
\<close>

definition get_page :: "exn + response \<Rightarrow> string \<Rightarrow> world \<Rightarrow> world \<times> (exn + string)" where
  "get_page net = count_and_cache 10 (get_page_body net)"

text \<open>Lines 67-68. \<open>if count\<close> is truthiness again.\<close>

definition get_count :: "string \<Rightarrow> world \<Rightarrow> exn + int" where
  "get_count url w =
     (case redis_get (count_key url) w of
        None \<Rightarrow> Inr 0
      | Some count \<Rightarrow> if count \<noteq> [] then py_int count else Inr 0)"

subsection \<open>Runs\<close>

datatype op = GetPage string "exn + response" | GetCount string | Elapse nat

fun step :: "world \<Rightarrow> op \<Rightarrow> world" where
  "step w (GetPage url net) = fst (get_page net url w)"
| "step w (GetCount url) = w"
| "step w (Elapse d) = elapse d w"

definition run :: "op list \<Rightarrow> world \<Rightarrow> world" where
  "run ops w = foldl step w ops"

fun page_urls :: "op list \<Rightarrow> string list" where
  "page_urls [] = []"
| "page_urls (GetPage url net # ops) = url # page_urls ops"
| "page_urls (GetCount url # ops) = page_urls ops"
| "page_urls (Elapse d # ops) = page_urls ops"

text \<open>
  The state of the counter of \<open>url\<close> after \<open>n\<close> increments on a key that did
  not exist before: nothing visible for \<open>n = 0\<close>, and afterwards the decimal form of
  \<open>n\<close> with no expiry.
\<close>

definition counted :: "string \<Rightarrow> nat \<Rightarrow> world \<Rightarrow> bool" where
  "counted url n w =
     (if n = 0 then lookup (count_key url) w = None
      else db w (count_key url) = Some \<lparr>payload = show_int (int n), expire_at = None\<rparr>)"

section \<open>Decimal round trips\<close>

lemma is_digit_digit_char: "d < 10 \<Longrightarrow> is_digit (digit_char d)"
  by (simp add: is_digit_def digit_char_def)

lemma of_char_digit_char: "d < 10 \<Longrightarrow> (of_char (digit_char d) :: nat) - 48 = d"
  by (simp add: digit_char_def)

lemma digits_acc_snoc:
  "digits_acc a (cs @ [c]) =
     (case digits_acc a cs of
        None \<Rightarrow> None
      | Some v \<Rightarrow> if is_digit c then Some (10 * v + (of_char c - 48)) else None)"
  by (induction cs arbitrary: a) auto

lemma show_nat_nonempty: "show_nat n \<noteq> []"
  by (induction n rule: show_nat.induct) (subst show_nat.simps, simp)

lemma digits_acc_show_nat: "digits_acc 0 (show_nat n) = Some n"
proof (induction n rule: show_nat.induct)
  case (1 n)
  show ?case
  proof (cases "n < 10")
    case True
    then show ?thesis
      by (subst show_nat.simps) (simp add: is_digit_digit_char of_char_digit_char)
  next
    case False
    with 1 have "digits_acc 0 (show_nat (n div 10)) = Some (n div 10)" by simp
    with False show ?thesis
      by (subst show_nat.simps)
         (simp add: digits_acc_snoc is_digit_digit_char of_char_digit_char)
  qed
qed

lemma digits_to_nat_show_nat: "digits_to_nat (show_nat n) = Some n"
  by (simp add: digits_to_nat_def show_nat_nonempty digits_acc_show_nat)

lemma show_nat_digits: "c \<in> set (show_nat n) \<Longrightarrow> is_digit c"
proof (induction n rule: show_nat.induct)
  case (1 n)
  show ?case
  proof (cases "n < 10")
    case True
    with 1(2) show ?thesis
      by (subst (asm) show_nat.simps) (simp add: is_digit_digit_char)
  next
    case False
    with 1 show ?thesis
      by (subst (asm) (2) show_nat.simps) (auto simp: is_digit_digit_char)
  qed
qed

lemma is_digit_plain:
  "is_digit c \<Longrightarrow> \<not> py_isspace c \<and> c \<noteq> CHR ''_'' \<and> c \<noteq> CHR ''-'' \<and> c \<noteq> CHR ''+''"
  by (auto simp: is_digit_def py_isspace_def)

lemma py_strip_id:
  assumes "s \<noteq> []" "\<not> py_isspace (hd s)" "\<not> py_isspace (last s)"
  shows "py_strip s = s"
proof -
  have "dropWhile py_isspace s = s"
    using assms by (simp add: dropWhile_eq_self_iff)
  moreover have "dropWhile py_isspace (rev s) = rev s"
    using assms by (simp add: dropWhile_eq_self_iff hd_rev)
  ultimately show ?thesis by (simp add: py_strip_def)
qed

lemma digit_groups_plain: "\<forall>c\<in>set ds. c \<noteq> CHR ''_'' \<Longrightarrow> digit_groups b ds = (b \<or> ds \<noteq> [])"
  by (induction ds arbitrary: b) auto

lemma py_int_show_nat: "py_int (show_nat n) = Inr (int n)"
proof -
  let ?s = "show_nat n"
  have ne: "?s \<noteq> []" by (rule show_nat_nonempty)
  have dig: "\<forall>c\<in>set ?s. is_digit c" using show_nat_digits by blast
  have h: "is_digit (hd ?s)" and l: "is_digit (last ?s)"
    using ne dig by simp_all
  have strip: "py_strip ?s = ?s"
    using ne h l by (intro py_strip_id) (simp_all add: is_digit_plain)
  have sign: "split_sign ?s = (1, ?s)"
    using ne h is_digit_plain[of "hd ?s"] by (cases ?s) (auto simp: split_sign_def)
  have grp: "digit_groups False ?s"
    using dig ne by (simp add: digit_groups_plain is_digit_plain)
  have flt: "filter (\<lambda>c. c \<noteq> CHR ''_'') ?s = ?s"
    using dig by (simp add: filter_id_conv is_digit_plain)
  show ?thesis
    by (simp add: py_int_def strip sign grp flt digits_to_nat_show_nat)
qed

lemma py_int_show_int: "py_int (show_int i) = Inr i"
proof (cases "i < 0")
  case False
  then show ?thesis by (simp add: show_int_def py_int_show_nat)
next
  case True
  let ?s = "show_nat (nat (- i))"
  have ne: "?s \<noteq> []" by (rule show_nat_nonempty)
  have dig: "\<forall>c\<in>set ?s. is_digit c" using show_nat_digits by blast
  have l: "is_digit (last ?s)" using ne dig by simp
  have "\<not> py_isspace (CHR ''-'')" by (simp add: py_isspace_def)
  moreover have "\<not> py_isspace (last (CHR ''-'' # ?s))"
    using ne l by (simp add: is_digit_plain)
  ultimately have strip: "py_strip (CHR ''-'' # ?s) = CHR ''-'' # ?s"
    by (intro py_strip_id) simp_all
  have grp: "digit_groups False ?s"
    using dig ne by (simp add: digit_groups_plain is_digit_plain)
  have flt: "filter (\<lambda>c. c \<noteq> CHR ''_'') ?s = ?s"
    using dig by (simp add: filter_id_conv is_digit_plain)
  show ?thesis
    using True
    by (simp add: show_int_def py_int_def strip split_sign_def grp flt digits_to_nat_show_nat)
qed

lemma show_int_nonempty: "show_int i \<noteq> []"
  by (simp add: show_int_def show_nat_nonempty)

lemma string2ll_show_int: "string2ll (show_int i) = Some i"
proof (cases "i < 0")
  case True
  then show ?thesis
    by (simp add: string2ll_def show_int_def digits_to_nat_show_nat)
next
  case False
  let ?s = "show_nat (nat i)"
  have ne: "?s \<noteq> []" by (rule show_nat_nonempty)
  have "is_digit (hd ?s)" using ne show_nat_digits hd_in_set by blast
  then have "hd ?s \<noteq> CHR ''-''" by (simp add: is_digit_plain)
  with ne have sign:
    "(case ?s of [] \<Rightarrow> (1, ?s) | c # r \<Rightarrow> if c = CHR ''-'' then (- 1, r) else (1 :: int, ?s)) = (1, ?s)"
    by (cases ?s) simp_all
  from False have "show_int i = ?s" "show_int (int (nat i)) = ?s" "int (nat i) = i"
    by (simp_all add: show_int_def)
  with sign show ?thesis
    by (simp add: string2ll_def digits_to_nat_show_nat)
qed

lemma string2ll_canonical: "string2ll s = Some n \<Longrightarrow> s = show_int n"
  by (auto simp: string2ll_def split: list.splits if_splits option.splits prod.splits)

section \<open>The store commands and one call of \<open>get_page\<close>\<close>

lemma count_key_neq: "count_key u \<noteq> u" "u \<noteq> count_key u"
  by (simp_all add: count_key_def)

lemma count_key_inj: "(count_key u = count_key v) = (u = v)"
  by (simp add: count_key_def)

lemma redis_incr_other: "k' \<noteq> k \<Longrightarrow> db (fst (redis_incr k w)) k' = db w k'"
  by (simp add: redis_incr_def split: option.splits)

lemma redis_incr_clock: "clock (fst (redis_incr k w)) = clock w"
  by (simp add: redis_incr_def split: option.splits)

lemma redis_incr_fetched: "fetched (fst (redis_incr k w)) = fetched w"
  by (simp add: redis_incr_def split: option.splits)

lemma redis_incr_done:
  assumes "redis_incr k w = (w', Inr n)"
  shows "(lookup k w = None \<and> n = 1 \<and> db w' k = Some \<lparr>payload = show_int 1, expire_at = None\<rparr>)
       \<or> (\<exists>e. lookup k w = Some e \<and> payload e = show_int (n - 1)
              \<and> db w' k = Some (e\<lparr>payload := show_int n\<rparr>))"
proof (cases "lookup k w")
  case None
  with assms show ?thesis by (auto simp: redis_incr_def)
next
  case (Some e)
  with assms obtain m where m: "string2ll (payload e) = Some m" "n = m + 1"
    "w' = w\<lparr>db := (db w)(k := Some (e\<lparr>payload := show_int (m + 1)\<rparr>))\<rparr>"
    by (auto simp: redis_incr_def split: option.splits)
  from m(1) have "payload e = show_int m" by (rule string2ll_canonical)
  with Some m show ?thesis by simp
qed

lemma lookup_cong: "db w' k = db w k \<Longrightarrow> clock w' = clock w \<Longrightarrow> lookup k w' = lookup k w"
  by (simp add: lookup_def split: option.splits)

lemma lookup_persistent: "db w k = Some e \<Longrightarrow> expire_at e = None \<Longrightarrow> lookup k w = Some e"
  by (simp add: lookup_def live_def)

lemma lookup_elapse_None: "lookup k w = None \<Longrightarrow> lookup k (elapse d w) = None"
  by (auto simp: lookup_def elapse_def live_def split: option.splits if_splits)

lemma get_count_absent: "lookup (count_key u) w = None \<Longrightarrow> get_count u w = Inr 0"
  by (simp add: get_count_def redis_get_def)

lemma get_count_decimal:
  "lookup (count_key u) w = Some e \<Longrightarrow> payload e = show_int n \<Longrightarrow> get_count u w = Inr n"
  by (simp add: get_count_def redis_get_def show_int_nonempty py_int_show_int)

lemma get_page_unfold:
  "get_page net u w =
     (case redis_incr (count_key u) w of
        (w', Inl e) \<Rightarrow> (w', Inl e)
      | (w', Inr n) \<Rightarrow>
          (case redis_get u w' of
             None \<Rightarrow> fetch_and_cache 10 (get_page_body net) u w'
           | Some cached_page \<Rightarrow>
               if cached_page \<noteq> [] then (w', Inr cached_page)
               else fetch_and_cache 10 (get_page_body net) u w'))"
  by (simp add: get_page_def count_and_cache_def wrapper_def)

lemma not_http_count_key: "\<not> http_url (count_key u)"
  by (simp add: http_url_def count_key_def)

lemma fetch_and_cache_body:
  "fetch_and_cache ttl (get_page_body net) u w =
     (case requests_outcome net u of
        Inl e \<Rightarrow> (w\<lparr>fetched := fetched w @ [u]\<rparr>, Inl e)
      | Inr r \<Rightarrow>
          if ttl \<le> 0 then (w\<lparr>fetched := fetched w @ [u]\<rparr>, Inl ResponseError)
          else (w\<lparr>fetched := fetched w @ [u],
                  db := (db w)(u := Some \<lparr>payload = resp_text r,
                                           expire_at = Some (clock w + 1000 * nat ttl)\<rparr>)\<rparr>,
                Inr (resp_text r)))"
  by (simp add: fetch_and_cache_def get_page_body_def requests_get_def redis_setex_def
           split: sum.splits)

lemma fetch_and_cache_other:
  "k \<noteq> u \<Longrightarrow> db (fst (fetch_and_cache ttl (get_page_body net) u w)) k = db w k"
  by (simp add: fetch_and_cache_body split: sum.splits)

lemma fetch_and_cache_clock:
  "clock (fst (fetch_and_cache ttl (get_page_body net) u w)) = clock w"
  by (simp add: fetch_and_cache_body split: sum.splits)

lemma get_page_clock: "clock (fst (get_page net u w)) = clock w"
proof -
  have "clock (fst (redis_incr (count_key u) w)) = clock w" by (rule redis_incr_clock)
  then show ?thesis
    by (cases "redis_incr (count_key u) w")
       (auto simp: get_page_unfold fetch_and_cache_clock split: sum.splits option.splits)
qed

lemma get_page_other:
  assumes "k \<noteq> count_key u" "k \<noteq> u"
  shows "db (fst (get_page net u w)) k = db w k"
proof -
  have "db (fst (redis_incr (count_key u) w)) k = db w k"
    using assms(1) by (rule redis_incr_other)
  then show ?thesis
    using assms(2)
    by (cases "redis_incr (count_key u) w")
       (auto simp: get_page_unfold fetch_and_cache_other split: sum.splits option.splits)
qed

lemma fetch_and_cache_refused:
  "\<not> http_url u \<Longrightarrow> db (fst (fetch_and_cache ttl (get_page_body net) u w)) = db w"
  by (simp add: fetch_and_cache_body requests_outcome_def)

lemma get_page_not_http:
  assumes "\<not> http_url u" "k \<noteq> count_key u"
  shows "db (fst (get_page net u w)) k = db w k"
proof -
  have "db (fst (redis_incr (count_key u) w)) k = db w k"
    using assms(2) by (rule redis_incr_other)
  then show ?thesis
    using assms(1)
    by (cases "redis_incr (count_key u) w")
       (auto simp: get_page_unfold fetch_and_cache_refused split: sum.splits option.splits)
qed

lemma get_page_counter_key:
  "db (fst (get_page net u w)) (count_key u) = db (fst (redis_incr (count_key u) w)) (count_key u)"
  by (cases "redis_incr (count_key u) w")
     (auto simp: get_page_unfold fetch_and_cache_other count_key_neq
           split: sum.splits option.splits)

lemma counted_get_count: "counted u n w \<Longrightarrow> get_count u w = Inr (int n)"
proof (cases "n = 0")
  case True
  assume "counted u n w"
  with True show ?thesis by (simp add: counted_def get_count_absent)
next
  case False
  assume "counted u n w"
  with False have "db w (count_key u) = Some \<lparr>payload = show_int (int n), expire_at = None\<rparr>"
    by (simp add: counted_def)
  then have "lookup (count_key u) w = Some \<lparr>payload = show_int (int n), expire_at = None\<rparr>"
    by (rule lookup_persistent) simp
  then show ?thesis by (rule get_count_decimal) simp
qed

lemma counted_incr:
  assumes "counted u n w"
  shows "redis_incr (count_key u) w =
           (w\<lparr>db := (db w)(count_key u := Some \<lparr>payload = show_int (int (Suc n)), expire_at = None\<rparr>)\<rparr>,
            Inr (int (Suc n)))"
proof (cases "n = 0")
  case True
  with assms show ?thesis by (simp add: counted_def redis_incr_def)
next
  case False
  with assms have "db w (count_key u) = Some \<lparr>payload = show_int (int n), expire_at = None\<rparr>"
    by (simp add: counted_def)
  then have "lookup (count_key u) w = Some \<lparr>payload = show_int (int n), expire_at = None\<rparr>"
    by (rule lookup_persistent) simp
  then show ?thesis
    by (simp add: redis_incr_def string2ll_show_int add.commute)
qed

lemma counted_get_page_same: "counted u n w \<Longrightarrow> counted u (Suc n) (fst (get_page net u w))"
  by (simp add: counted_def get_page_counter_key counted_incr[unfolded counted_def])

lemma counted_get_page_other:
  assumes "counted u n w" "v \<noteq> u"
  shows "counted u n (fst (get_page net v w))"
proof -
  have "db (fst (get_page net v w)) (count_key u) = db w (count_key u)"
  proof (cases "v = count_key u")
    case True
    then show ?thesis by (simp add: get_page_not_http not_http_count_key count_key_inj count_key_neq)
  next
    case False
    with assms(2) show ?thesis by (intro get_page_other) (auto simp: count_key_inj)
  qed
  moreover from this have "lookup (count_key u) (fst (get_page net v w)) = lookup (count_key u) w"
    by (rule lookup_cong) (rule get_page_clock)
  ultimately show ?thesis using assms(1) by (simp add: counted_def)
qed

lemma counted_elapse: "counted u n w \<Longrightarrow> counted u n (elapse d w)"
  by (auto simp: counted_def lookup_elapse_None) (simp add: elapse_def)

lemma counted_run:
  "counted u n w \<Longrightarrow> counted u (n + count_list (page_urls ops) u) (run ops w)"
proof (induction ops arbitrary: n w)
  case Nil
  then show ?case by (simp add: run_def)
next
  case (Cons a ops)
  show ?case
  proof (cases a)
    case (GetPage v net)
    show ?thesis
    proof (cases "v = u")
      case True
      with Cons.prems have "counted u (Suc n) (fst (get_page net v w))"
        by (simp add: counted_get_page_same)
      then have "counted u (Suc n + count_list (page_urls ops) u) (run ops (fst (get_page net v w)))"
        by (rule Cons.IH)
      with GetPage True show ?thesis by (simp add: run_def)
    next
      case False
      with Cons.prems have "counted u n (fst (get_page net v w))"
        by (intro counted_get_page_other) auto
      then have "counted u (n + count_list (page_urls ops) u) (run ops (fst (get_page net v w)))"
        by (rule Cons.IH)
      with GetPage False show ?thesis by (simp add: run_def)
    qed
  next
    case (GetCount v)
    with Cons.IH[of n w] Cons.prems show ?thesis by (simp add: run_def)
  next
    case (Elapse d)
    from Cons.prems have "counted u n (elapse d w)" by (rule counted_elapse)
    then have "counted u (n + count_list (page_urls ops) u) (run ops (elapse d w))"
      by (rule Cons.IH)
    with Elapse show ?thesis by (simp add: run_def)
  qed
qed

lemma lookup_SomeD: "lookup k w = Some e \<Longrightarrow> db w k = Some e \<and> live (clock w) e"
  by (auto simp: lookup_def split: option.splits if_splits)

lemma lookup_None_iff: "(redis_get k w = None) = (lookup k w = None)"
  by (simp add: redis_get_def)

lemma get_count_after_incr:
  assumes "redis_incr (count_key u) w = (w', Inr n)"
  shows "get_count u w = Inr (n - 1)" and "get_count u (fst (get_page net u w)) = Inr n"
proof -
  let ?w = "fst (get_page net u w)"
  have key: "db ?w (count_key u) = db w' (count_key u)"
    using assms by (simp add: get_page_counter_key)
  from redis_incr_done[OF assms]
  consider (new) "lookup (count_key u) w = None" "n = 1"
      "db w' (count_key u) = Some \<lparr>payload = show_int 1, expire_at = None\<rparr>"
    | (old) e where "lookup (count_key u) w = Some e" "payload e = show_int (n - 1)"
      "db w' (count_key u) = Some (e\<lparr>payload := show_int n\<rparr>)"
    by auto
  then have "get_count u w = Inr (n - 1) \<and> get_count u ?w = Inr n"
  proof cases
    case new
    have "lookup (count_key u) ?w = Some \<lparr>payload = show_int 1, expire_at = None\<rparr>"
      using key new(3) by (intro lookup_persistent) simp_all
    then have "get_count u ?w = Inr 1" by (rule get_count_decimal) simp
    with new show ?thesis by (simp add: get_count_absent)
  next
    case old
    from old(1) have "live (clock w) e" by (simp add: lookup_SomeD)
    then have "live (clock ?w) (e\<lparr>payload := show_int n\<rparr>)"
      by (simp add: live_def get_page_clock)
    with key old(3) have "lookup (count_key u) ?w = Some (e\<lparr>payload := show_int n\<rparr>)"
      by (simp add: lookup_def)
    then have "get_count u ?w = Inr n" by (rule get_count_decimal) simp
    moreover from old(1,2) have "get_count u w = Inr (n - 1)" by (rule get_count_decimal)
    ultimately show ?thesis by simp
  qed
  then show "get_count u w = Inr (n - 1)" and "get_count u ?w = Inr n" by simp_all
qed

lemma redis_get_cong: "db w' k = db w k \<Longrightarrow> clock w' = clock w \<Longrightarrow> redis_get k w' = redis_get k w"
  unfolding redis_get_def by (drule (1) lookup_cong) simp

lemma redis_get_after_incr: "k \<noteq> k' \<Longrightarrow> redis_get k (fst (redis_incr k' w)) = redis_get k w"
  by (rule redis_get_cong) (simp_all add: redis_incr_other redis_incr_clock)

lemma wrapper_miss:
  assumes "redis_incr (count_key u) w = (w', Inr n)"
      and "redis_get u w = None \<or> redis_get u w = Some []"
  shows "wrapper ttl func u w = fetch_and_cache ttl func u w'"
proof -
  have "redis_get u w' = redis_get u w"
    using redis_get_after_incr[of u "count_key u" w] assms(1) by (simp add: count_key_neq)
  with assms show ?thesis by (auto simp: wrapper_def)
qed


lemma get_page_wrapper: "get_page net u w = wrapper 10 (get_page_body net) u w"
  by (simp add: get_page_def count_and_cache_def)

lemma redis_incr_new:
  "lookup k w = None \<Longrightarrow>
   redis_incr k w = (w\<lparr>db := (db w)(k := Some \<lparr>payload = show_int 1, expire_at = None\<rparr>)\<rparr>, Inr 1)"
  by (simp add: redis_incr_def)



lemma fetch_and_cache_fetched:
  "fetched (fst (fetch_and_cache ttl (get_page_body net) u w)) = fetched w @ [u]"
  by (simp add: fetch_and_cache_body split: sum.splits)

lemma redis_incr_world:
  assumes "redis_incr k w = (w', r)"
  shows "fetched w' = fetched w" "clock w' = clock w" "k' \<noteq> k \<Longrightarrow> db w' k' = db w k'"
proof -
  have e: "fst (redis_incr k w) = w'" using assms by simp
  show "fetched w' = fetched w" unfolding e[symmetric] by (rule redis_incr_fetched)
  show "clock w' = clock w" unfolding e[symmetric] by (rule redis_incr_clock)
  show "k' \<noteq> k \<Longrightarrow> db w' k' = db w k'" unfolding e[symmetric] by (rule redis_incr_other)
qed


lemma redis_incr_old:
  "lookup k w = Some e \<Longrightarrow> payload e = show_int n \<Longrightarrow>
   redis_incr k w = (w\<lparr>db := (db w)(k := Some (e\<lparr>payload := show_int (n + 1)\<rparr>))\<rparr>, Inr (n + 1))"
  by (simp add: redis_incr_def string2ll_show_int)

lemma wrapper_miss_response:
  assumes "redis_incr (count_key u) w = (w', Inr n)"
      and "redis_get u w = None \<or> redis_get u w = Some []"
      and "0 < ttl"
      and "requests_outcome net u = Inr r"
  shows "wrapper ttl (get_page_body net) u w =
           (w'\<lparr>fetched := fetched w' @ [u],
               db := (db w')(u := Some \<lparr>payload = resp_text r,
                                         expire_at = Some (clock w' + 1000 * nat ttl)\<rparr>)\<rparr>,
            Inr (resp_text r))"
  using assms(3,4) by (simp add: wrapper_miss[OF assms(1,2)] fetch_and_cache_body)

lemma get_page_miss_response:
  assumes "redis_incr (count_key u) w = (w', Inr n)"
      and "redis_get u w = None \<or> redis_get u w = Some []"
      and "requests_outcome net u = Inr r"
  shows "get_page net u w =
           (w'\<lparr>fetched := fetched w' @ [u],
               db := (db w')(u := Some \<lparr>payload = resp_text r,
                                         expire_at = Some (clock w' + 10000)\<rparr>)\<rparr>,
            Inr (resp_text r))"
  by (simp add: get_page_wrapper wrapper_miss_response[OF assms(1,2) _ assms(3)])

lemma get_page_miss_raise:
  assumes "redis_incr (count_key u) w = (w', Inr n)"
      and "redis_get u w = None \<or> redis_get u w = Some []"
      and "requests_outcome net u = Inl e"
  shows "get_page net u w = (w'\<lparr>fetched := fetched w' @ [u]\<rparr>, Inl e)"
  using assms(3) by (simp add: get_page_wrapper wrapper_miss[OF assms(1,2)] fetch_and_cache_body)


lemma requests_outcome_http:
  "requests_outcome net (CHR ''h'' # CHR ''t'' # CHR ''t'' # CHR ''p'' # CHR '':'' # CHR ''/'' # CHR ''/'' # rest) = net"
  by (simp add: requests_outcome_def http_url_def)

lemma requests_outcome_count_key: "requests_outcome net (count_key u) = Inl InvalidSchema"
  by (simp add: requests_outcome_def not_http_count_key)


lemma page_urls_append: "page_urls (ops @ ops') = page_urls ops @ page_urls ops'"
  by (induction ops rule: page_urls.induct) simp_all

lemma count_list_pos: "x \<in> set xs \<Longrightarrow> 0 < count_list xs x"
  by (induction xs) auto

lemma count_list_app: "count_list (xs @ ys) x = count_list xs x + count_list ys x"
  by (induction xs) auto

lemma lookup_fresh: "lookup k fresh = None"
  by (simp add: lookup_def fresh_def)

lemma redis_get_fresh: "redis_get k fresh = None"
  by (simp add: redis_get_def lookup_fresh)


lemma get_count_run:
  assumes "redis_get (count_key u) w = None"
  shows "get_count u (run ops w) = Inr (int (count_list (page_urls ops) u))"
proof -
  from assms have "counted u 0 w" by (simp add: counted_def lookup_None_iff)
  then have "counted u (0 + count_list (page_urls ops) u) (run ops w)"
    by (rule counted_run)
  then show ?thesis by (simp add: counted_get_count)
qed

lemma count_list_absent: "x \<notin> set xs \<Longrightarrow> count_list xs x = 0"
  by (induction xs) auto

section \<open>The claims\<close>

text \<open>
  C1. Every call of \<open>get_page\<close> on a URL adds one to the counter of that URL,
  whatever the call then does (cache hit, miss, failed fetch): whenever the server
  accepts the increment, \<open>get_count\<close> reads one more after the call than before
  it. Hence, starting without a counter for the URL, after any sequence of calls (on
  this and on any other URLs, with any outcomes and any waiting in between)
  \<open>get_count\<close> returns the number of \<open>get_page\<close> calls made on the URL.
\<close>

theorem get_page_counts_every_call:
  "(redis_incr (count_key u) w = (w', Inr n) \<longrightarrow>
      get_count u w = Inr (n - 1) \<and> get_count u (fst (get_page net u w)) = Inr n)
   \<and> (redis_get (count_key u) w = None \<longrightarrow>
      get_count u (run ops w) = Inr (int (count_list (page_urls ops) u)))"
proof (intro conjI impI)
  assume "redis_incr (count_key u) w = (w', Inr n)"
  then show "get_count u w = Inr (n - 1)" and "get_count u (fst (get_page net u w)) = Inr n"
    by (rule get_count_after_incr)+
next
  assume "redis_get (count_key u) w = None"
  then show "get_count u (run ops w) = Inr (int (count_list (page_urls ops) u))"
    by (rule get_count_run)
qed

theorem get_page_counts_every_call_witness:
  "get_count ''http://a'' fresh = Inr 0
   \<and> get_count ''http://a'' (fst (get_page (Inl Timeout) ''http://a'' fresh)) = Inr 1
   \<and> get_count ''http://a''
        (run [GetPage ''http://a'' (Inl ConnectionError),
              GetPage ''count:http://a'' (Inr \<lparr>status_code = 200, resp_text = ''41''\<rparr>),
              GetPage ''http://a'' (Inr \<lparr>status_code = 200, resp_text = ''HELLO''\<rparr>),
              GetCount ''http://a'', Elapse 5000,
              GetPage ''http://b'' (Inr \<lparr>status_code = 200, resp_text = ''7''\<rparr>),
              GetPage ''http://a'' (Inl Timeout)] fresh) = Inr 3"
proof -
  have incr: "redis_incr (count_key ''http://a'') fresh =
      (fresh\<lparr>db := (db fresh)(count_key ''http://a'' := Some \<lparr>payload = show_int 1, expire_at = None\<rparr>)\<rparr>, Inr 1)"
    by (rule redis_incr_new) (rule lookup_fresh)
  have none: "redis_get (count_key ''http://a'') fresh = None"
    by (rule redis_get_fresh)
  note inst = get_page_counts_every_call
    [of "''http://a''" fresh _ 1 "Inl Timeout"
        "[GetPage ''http://a'' (Inl ConnectionError),
          GetPage ''count:http://a'' (Inr \<lparr>status_code = 200, resp_text = ''41''\<rparr>),
          GetPage ''http://a'' (Inr \<lparr>status_code = 200, resp_text = ''HELLO''\<rparr>),
          GetCount ''http://a'', Elapse 5000,
          GetPage ''http://b'' (Inr \<lparr>status_code = 200, resp_text = ''7''\<rparr>),
          GetPage ''http://a'' (Inl Timeout)]"]
  from inst incr none show ?thesis by simp
qed




text \<open>
  C3 at an entry with empty content: the page fetched first is empty and is cached;
  one second later the entry is still there, yet \<open>get_page\<close> makes a second
  request and returns the new text.
\<close>

theorem empty_cached_page_is_not_a_hit:
  "redis_get ''http://a''
     (elapse 1000 (fst (get_page (Inr \<lparr>status_code = 200, resp_text = ''''\<rparr>) ''http://a'' fresh)))
     = Some ''''
   \<and> snd (get_page (Inr \<lparr>status_code = 200, resp_text = ''NEW''\<rparr>) ''http://a''
           (elapse 1000 (fst (get_page (Inr \<lparr>status_code = 200, resp_text = ''''\<rparr>) ''http://a'' fresh))))
     = Inr ''NEW''
   \<and> fetched (fst (get_page (Inr \<lparr>status_code = 200, resp_text = ''NEW''\<rparr>) ''http://a''
           (elapse 1000 (fst (get_page (Inr \<lparr>status_code = 200, resp_text = ''''\<rparr>) ''http://a'' fresh)))))
     = [''http://a'', ''http://a'']"
proof -
  let ?u = "''http://a''"
  let ?r0 = "\<lparr>status_code = 200, resp_text = ''''\<rparr>"
  let ?r1 = "\<lparr>status_code = 200, resp_text = ''NEW''\<rparr>"
  let ?one = "\<lparr>payload = show_int 1, expire_at = None\<rparr>"
  let ?w0 = "fresh\<lparr>db := (db fresh)(count_key ?u := Some ?one)\<rparr>"
  let ?w1 = "?w0\<lparr>fetched := fetched ?w0 @ [?u],
                 db := (db ?w0)(?u := Some \<lparr>payload = resp_text ?r0,
                                              expire_at = Some (clock ?w0 + 10000)\<rparr>)\<rparr>"
  let ?w2 = "elapse 1000 ?w1"
  let ?w3 = "?w2\<lparr>db := (db ?w2)(count_key ?u := Some (?one\<lparr>payload := show_int (1 + 1)\<rparr>))\<rparr>"
  have i1: "redis_incr (count_key ?u) fresh = (?w0, Inr 1)"
    by (rule redis_incr_new) (rule lookup_fresh)
  have m1: "redis_get ?u fresh = None \<or> redis_get ?u fresh = Some []"
    by (simp add: redis_get_fresh)
  have o0: "requests_outcome (Inr ?r0) ?u = Inr ?r0" by (rule requests_outcome_http)
  have o1: "requests_outcome (Inr ?r1) ?u = Inr ?r1" by (rule requests_outcome_http)
  have s1: "get_page (Inr ?r0) ?u fresh = (?w1, Inr (resp_text ?r0))"
    by (rule get_page_miss_response[OF i1 m1 o0])
  have g2: "redis_get ?u ?w2 = Some ''''"
    by (simp add: redis_get_def lookup_def live_def fresh_def elapse_def count_key_def)
  have l2: "lookup (count_key ?u) ?w2 = Some ?one"
    by (simp add: lookup_def live_def fresh_def elapse_def count_key_def)
  have i2: "redis_incr (count_key ?u) ?w2 = (?w3, Inr (1 + 1))"
    by (rule redis_incr_old[OF l2]) simp
  have m2: "redis_get ?u ?w2 = None \<or> redis_get ?u ?w2 = Some []"
    using g2 by simp
  note s2 = get_page_miss_response[OF i2 m2 o1]
  have e1: "fst (get_page (Inr ?r0) ?u fresh) = ?w1"
    by (simp only: s1 fst_conv)
  have b: "snd (get_page (Inr ?r1) ?u ?w2) = Inr ''NEW''"
    unfolding s2 by simp
  have c: "fetched (fst (get_page (Inr ?r1) ?u ?w2)) = [?u, ?u]"
    unfolding s2 by (simp add: elapse_def fresh_def)
  show ?thesis unfolding e1 using g2 b c by blast
qed

text \<open>
  C4. When the cached value is missing (or empty, which the test treats alike) and the
  request raises, \<open>get_page\<close> raises the same exception, writes nothing under
  the URL (a missing entry stays missing), and keeps the increment: \<open>get_count\<close>
  reads exactly one more than before the call.
\<close>

theorem failed_fetch_is_propagated:
  assumes "redis_get u w = None \<or> redis_get u w = Some []"
      and "redis_incr (count_key u) w = (w', Inr n)"
      and "requests_outcome net u = Inl e"
  shows "snd (get_page net u w) = Inl e
       \<and> fetched (fst (get_page net u w)) = fetched w @ [u]
       \<and> db (fst (get_page net u w)) u = db w u
       \<and> redis_get u (fst (get_page net u w)) = redis_get u w
       \<and> get_count u w = Inr (n - 1)
       \<and> get_count u (fst (get_page net u w)) = Inr n"
proof -
  let ?w = "fst (get_page net u w)"
  have eq: "get_page net u w = (w'\<lparr>fetched := fetched w' @ [u]\<rparr>, Inl e)"
    by (rule get_page_miss_raise[OF assms(2) assms(1) assms(3)])
  have w': "fetched w' = fetched w" "clock w' = clock w" "db w' u = db w u"
    using redis_incr_world[OF assms(2)] by (simp_all add: count_key_neq)
  have r: "snd (get_page net u w) = Inl e" "fetched ?w = fetched w @ [u]"
    "db ?w u = db w u" "clock ?w = clock w"
    using w' by (simp_all add: eq)
  from r(3,4) have g: "redis_get u ?w = redis_get u w" by (rule redis_get_cong)
  have c: "get_count u w = Inr (n - 1)" "get_count u ?w = Inr n"
    by (rule get_count_after_incr[OF assms(2)])+
  from r(1,2,3) g c show ?thesis by blast
qed

theorem failed_fetch_is_propagated_witness:
  "snd (get_page (Inl Timeout) ''http://a'' fresh) = Inl Timeout
   \<and> fetched (fst (get_page (Inl Timeout) ''http://a'' fresh)) = [''http://a'']
   \<and> db (fst (get_page (Inl Timeout) ''http://a'' fresh)) ''http://a'' = None
   \<and> redis_get ''http://a'' (fst (get_page (Inl Timeout) ''http://a'' fresh)) = None
   \<and> get_count ''http://a'' fresh = Inr 0
   \<and> get_count ''http://a'' (fst (get_page (Inl Timeout) ''http://a'' fresh)) = Inr 1"
proof -
  have i: "redis_incr (count_key ''http://a'') fresh =
      (fresh\<lparr>db := (db fresh)(count_key ''http://a'' := Some \<lparr>payload = show_int 1, expire_at = None\<rparr>)\<rparr>, Inr 1)"
    by (rule redis_incr_new) (rule lookup_fresh)
  have m: "redis_get ''http://a'' fresh = None \<or> redis_get ''http://a'' fresh = Some []"
    by (simp add: redis_get_fresh)
  have o: "requests_outcome (Inl Timeout) ''http://a'' = Inl Timeout"
    by (rule requests_outcome_http)
  have f: "fetched fresh = []" "db fresh ''http://a'' = None"
    by (simp_all add: fresh_def)
  from failed_fetch_is_propagated[OF m i o] show ?thesis
    by (simp add: f redis_get_fresh)
qed






text \<open>
  C7. \<open>get_count\<close> reads the key \<open>count:url\<close>: it returns 0 when nothing is
  stored there and the stored integer when its decimal form is. It does not fail on a
  missing key, so starting without that key, every \<open>get_count\<close> on the URL before
  any \<open>get_page\<close> on it returns 0, whatever is called on other URLs meanwhile.
\<close>

theorem get_count_missing_key_is_zero:
  "(redis_get (count_key u) w = None \<longrightarrow> get_count u w = Inr 0)
   \<and> (redis_get (count_key u) w = Some (show_int n) \<longrightarrow> get_count u w = Inr n)
   \<and> (redis_get (count_key u) w = None \<and> u \<notin> set (page_urls ops) \<longrightarrow>
        get_count u (run ops w) = Inr 0)"
proof (intro conjI impI)
  assume "redis_get (count_key u) w = None"
  then show "get_count u w = Inr 0" by (simp add: get_count_def)
next
  assume "redis_get (count_key u) w = Some (show_int n)"
  then show "get_count u w = Inr n"
    by (simp add: get_count_def show_int_nonempty py_int_show_int)
next
  assume a: "redis_get (count_key u) w = None \<and> u \<notin> set (page_urls ops)"
  then have "get_count u (run ops w) = Inr (int (count_list (page_urls ops) u))"
    by (simp add: get_count_run)
  with a show "get_count u (run ops w) = Inr 0" by (simp add: count_list_absent)
qed

theorem get_count_missing_key_is_zero_witness:
  "get_count ''http://a'' fresh = Inr 0
   \<and> get_count ''http://a''
        (fresh\<lparr>db := (db fresh)(count_key ''http://a'' := Some \<lparr>payload = show_int 12, expire_at = None\<rparr>)\<rparr>) = Inr 12
   \<and> get_count ''http://a''
        (run [GetCount ''http://a'',
              GetPage ''http://b'' (Inr \<lparr>status_code = 200, resp_text = ''7''\<rparr>),
              GetPage ''count:http://a'' (Inr \<lparr>status_code = 200, resp_text = ''7''\<rparr>),
              Elapse 3000, GetCount ''http://a''] fresh) = Inr 0"
proof -
  let ?w = "fresh\<lparr>db := (db fresh)(count_key ''http://a'' := Some \<lparr>payload = show_int 12, expire_at = None\<rparr>)\<rparr>"
  have none: "redis_get (count_key ''http://a'') fresh = None"
    by (rule redis_get_fresh)
  have some: "redis_get (count_key ''http://a'') ?w = Some (show_int 12)"
    by (simp add: redis_get_def lookup_def live_def)
  from none some
    get_count_missing_key_is_zero[of "''http://a''" fresh 0
      "[GetCount ''http://a'',
        GetPage ''http://b'' (Inr \<lparr>status_code = 200, resp_text = ''7''\<rparr>),
        GetPage ''count:http://a'' (Inr \<lparr>status_code = 200, resp_text = ''7''\<rparr>),
        Elapse 3000, GetCount ''http://a'']"]
    get_count_missing_key_is_zero[of "''http://a''" ?w 12 "[]"]
  show ?thesis by simp
qed

text \<open>
  C8. Starting without a counter for a URL, across any sequence of \<open>get_page\<close>
  and \<open>get_count\<close> calls on any URLs, and any waiting, the counter equals the
  number of \<open>get_page\<close> calls on the URL so far: it starts at 0, the first call
  makes it 1, it never decreases as the sequence is extended, and once created the key
  stays, with no expiry.
\<close>

theorem counter_never_decreases:
  assumes "redis_get (count_key u) w = None"
  shows "get_count u (run ops w) = Inr (int (count_list (page_urls ops) u))
       \<and> get_count u (run (ops @ ops') w)
           = Inr (int (count_list (page_urls ops) u) + int (count_list (page_urls ops') u))
       \<and> (u \<in> set (page_urls ops) \<longrightarrow>
            (\<exists>e. db (run (ops @ ops') w) (count_key u) = Some e \<and> expire_at e = None))"
proof -
  from assms have c0: "counted u 0 w" by (simp add: counted_def lookup_None_iff)
  have g1: "get_count u (run ops w) = Inr (int (count_list (page_urls ops) u))"
    using assms by (rule get_count_run)
  from c0
  have c2: "counted u (0 + count_list (page_urls (ops @ ops')) u) (run (ops @ ops') w)"
    by (rule counted_run)
  then have g2: "get_count u (run (ops @ ops') w)
      = Inr (int (count_list (page_urls ops) u) + int (count_list (page_urls ops') u))"
    by (simp add: counted_get_count page_urls_append count_list_app)
  have g3: "\<exists>e. db (run (ops @ ops') w) (count_key u) = Some e \<and> expire_at e = None"
    if "u \<in> set (page_urls ops)"
  proof -
    from that have "0 < count_list (page_urls (ops @ ops')) u"
      by (simp add: page_urls_append count_list_app count_list_pos)
    with c2 show ?thesis by (simp add: counted_def)
  qed
  from g1 g2 g3 show ?thesis by blast
qed

theorem counter_never_decreases_witness:
  "get_count ''http://a''
     (run [GetPage ''http://a'' (Inr \<lparr>status_code = 200, resp_text = ''HELLO''\<rparr>)] fresh) = Inr 1
   \<and> get_count ''http://a''
     (run ([GetPage ''http://a'' (Inr \<lparr>status_code = 200, resp_text = ''HELLO''\<rparr>)] @
           [Elapse 20000, GetPage ''count:http://a'' (Inr \<lparr>status_code = 200, resp_text = ''41''\<rparr>),
            GetPage ''http://b'' (Inl Timeout), GetCount ''http://a'',
            GetPage ''http://a'' (Inl ConnectionError)]) fresh) = Inr 2
   \<and> (\<exists>e. db (run ([GetPage ''http://a'' (Inr \<lparr>status_code = 200, resp_text = ''HELLO''\<rparr>)] @
           [Elapse 20000, GetPage ''count:http://a'' (Inr \<lparr>status_code = 200, resp_text = ''41''\<rparr>),
            GetPage ''http://b'' (Inl Timeout), GetCount ''http://a'',
            GetPage ''http://a'' (Inl ConnectionError)]) fresh) (count_key ''http://a'') = Some e
          \<and> expire_at e = None)"
proof -
  have a: "redis_get (count_key ''http://a'') fresh = None" by (rule redis_get_fresh)
  from counter_never_decreases[OF a,
      of "[GetPage ''http://a'' (Inr \<lparr>status_code = 200, resp_text = ''HELLO''\<rparr>)]"
         "[Elapse 20000, GetPage ''count:http://a'' (Inr \<lparr>status_code = 200, resp_text = ''41''\<rparr>),
           GetPage ''http://b'' (Inl Timeout), GetCount ''http://a'',
           GetPage ''http://a'' (Inl ConnectionError)]"]
  show ?thesis by simp
qed

text \<open>
  C9. An entry whose content is the empty string counts as a miss: \<open>get_page\<close>
  on a URL with an empty cached value that has not expired still calls
  \<open>requests.get\<close>, and on a response it overwrites the entry with the new text and
  a time to live of ten seconds from now (provided the server accepts the increment
  that comes first).
\<close>

theorem empty_cached_page_is_fetched_again:
  assumes "redis_get u w = Some []"
      and "redis_incr (count_key u) w = (w', Inr n)"
  shows "fetched (fst (get_page net u w)) = fetched w @ [u]
       \<and> (requests_outcome net u = Inr r \<longrightarrow>
            snd (get_page net u w) = Inr (resp_text r)
            \<and> db (fst (get_page net u w)) u
                = Some \<lparr>payload = resp_text r, expire_at = Some (clock w + 10000)\<rparr>)"
proof -
  have m: "redis_get u w = None \<or> redis_get u w = Some []" using assms(1) by simp
  have eq: "get_page net u w = fetch_and_cache 10 (get_page_body net) u w'"
    unfolding get_page_wrapper by (rule wrapper_miss[OF assms(2) m])
  have w': "fetched w' = fetched w" "clock w' = clock w"
    using redis_incr_world[OF assms(2)] by simp_all
  have f: "fetched (fst (get_page net u w)) = fetched w @ [u]"
    by (simp add: eq fetch_and_cache_fetched w')
  have g: "snd (get_page net u w) = Inr (resp_text r)
       \<and> db (fst (get_page net u w)) u
           = Some \<lparr>payload = resp_text r, expire_at = Some (clock w + 10000)\<rparr>"
    if "requests_outcome net u = Inr r"
    using that w' by (simp add: get_page_miss_response[OF assms(2) m that])
  from f g show ?thesis by blast
qed

theorem empty_cached_page_is_fetched_again_witness:
  "fetched (fst (get_page (Inl Timeout) ''http://a''
      (fresh\<lparr>db := (db fresh)(''http://a'' := Some \<lparr>payload = [], expire_at = Some 10000\<rparr>)\<rparr>)))
     = [''http://a'']
   \<and> snd (get_page (Inr \<lparr>status_code = 200, resp_text = ''NEW''\<rparr>) ''http://a''
      (fresh\<lparr>db := (db fresh)(''http://a'' := Some \<lparr>payload = [], expire_at = Some 10000\<rparr>)\<rparr>))
     = Inr ''NEW''
   \<and> db (fst (get_page (Inr \<lparr>status_code = 200, resp_text = ''NEW''\<rparr>) ''http://a''
      (fresh\<lparr>db := (db fresh)(''http://a'' := Some \<lparr>payload = [], expire_at = Some 10000\<rparr>)\<rparr>)))
      ''http://a''
     = Some \<lparr>payload = ''NEW'', expire_at = Some 10000\<rparr>"
proof -
  let ?w = "fresh\<lparr>db := (db fresh)(''http://a'' := Some \<lparr>payload = [], expire_at = Some 10000\<rparr>)\<rparr>"
  let ?r = "\<lparr>status_code = 200, resp_text = ''NEW''\<rparr>"
  have l: "lookup (count_key ''http://a'') ?w = None"
    by (simp add: lookup_def fresh_def count_key_neq)
  have i: "redis_incr (count_key ''http://a'') ?w =
      (?w\<lparr>db := (db ?w)(count_key ''http://a'' := Some \<lparr>payload = show_int 1, expire_at = None\<rparr>)\<rparr>, Inr 1)"
    by (rule redis_incr_new[OF l])
  have g: "redis_get ''http://a'' ?w = Some []"
    by (simp add: redis_get_def lookup_def live_def fresh_def)
  have o: "requests_outcome (Inr ?r) ''http://a'' = Inr ?r" by (rule requests_outcome_http)
  have f: "fetched ?w = []" "clock ?w = 0" by (simp_all add: fresh_def)
  from empty_cached_page_is_fetched_again[OF g i, of "Inl Timeout" ?r]
       empty_cached_page_is_fetched_again[OF g i, of "Inr ?r" ?r] o
  show ?thesis by (simp add: f)
qed

text \<open>
  C10, as stated, fails: no malformed counter can be reached through \<open>get_page\<close>
  and \<open>get_count\<close>. \<open>get_page\<close> on the URL \<open>count:x\<close> stores nothing, since
  \<open>requests.get\<close> refuses the url, so \<open>get_count\<close> on \<open>x\<close> still returns 0;
  and after any sequence of calls on an empty store \<open>get_count\<close> returns an
  integer, the number of \<open>get_page\<close> calls on the URL.
\<close>

theorem malformed_counter_is_not_reached:
  "snd (get_page (Inr \<lparr>status_code = 200, resp_text = ''<html>''\<rparr>) ''count:x'' fresh)
     = Inl InvalidSchema
   \<and> redis_get ''count:x''
        (fst (get_page (Inr \<lparr>status_code = 200, resp_text = ''<html>''\<rparr>) ''count:x'' fresh))
       = None
   \<and> get_count ''x''
        (fst (get_page (Inr \<lparr>status_code = 200, resp_text = ''<html>''\<rparr>) ''count:x'' fresh))
       = Inr 0
   \<and> (\<forall>u ops. get_count u (run ops fresh) = Inr (int (count_list (page_urls ops) u)))"
proof -
  let ?r = "\<lparr>status_code = 200, resp_text = ''<html>''\<rparr>"
  let ?v = "count_key ''x''"
  let ?w0 = "fresh\<lparr>db := (db fresh)(count_key ?v := Some \<lparr>payload = show_int 1, expire_at = None\<rparr>)\<rparr>"
  let ?w1 = "?w0\<lparr>fetched := fetched ?w0 @ [?v]\<rparr>"
  have ck: "''count:x'' = ?v" by (simp add: count_key_def)
  have i: "redis_incr (count_key ?v) fresh = (?w0, Inr 1)"
    by (rule redis_incr_new) (rule lookup_fresh)
  have m: "redis_get ?v fresh = None \<or> redis_get ?v fresh = Some []"
    by (simp add: redis_get_fresh)
  have o: "requests_outcome (Inr ?r) ?v = Inl InvalidSchema"
    by (rule requests_outcome_count_key)
  have s: "get_page (Inr ?r) ?v fresh = (?w1, Inl InvalidSchema)"
    by (rule get_page_miss_raise[OF i m o])
  have l: "lookup ?v ?w1 = None"
    by (simp add: lookup_def fresh_def count_key_def)
  have a: "snd (get_page (Inr ?r) ?v fresh) = Inl InvalidSchema"
    by (simp only: s snd_conv)
  have e: "fst (get_page (Inr ?r) ?v fresh) = ?w1"
    by (simp only: s fst_conv)
  have b: "redis_get ?v ?w1 = None" using l by (simp add: redis_get_def)
  have c: "get_count ''x'' ?w1 = Inr 0" by (rule get_count_absent[OF l])
  have d: "\<forall>u ops. get_count u (run ops fresh) = Inr (int (count_list (page_urls ops) u))"
    by (simp add: get_count_run redis_get_fresh)
  show ?thesis unfolding ck e using a b c d by blast
qed

text \<open>
  C10, amended. \<open>get_count\<close> is partial on malformed counter values: it applies
  \<open>int()\<close> to whatever non-empty bytes are stored under the counter key, so on a
  store that holds, say, \<open><html>\<close> there it raises \<open>ValueError\<close>. Such a value
  has to come from another client of the store: after any sequence of \<open>get_page\<close>
  and \<open>get_count\<close> calls on an empty store, \<open>get_count\<close> returns the number of
  \<open>get_page\<close> calls on the URL.
\<close>

theorem get_count_raises_on_malformed_value:
  "(redis_get (count_key u) w = Some b \<and> b \<noteq> [] \<longrightarrow> get_count u w = py_int b)
   \<and> py_int ''<html>'' = Inl ValueError
   \<and> (redis_get (count_key u) w = Some ''<html>'' \<longrightarrow> get_count u w = Inl ValueError)
   \<and> get_count u (run ops fresh) = Inr (int (count_list (page_urls ops) u))"
proof -
  have p: "py_int ''<html>'' = Inl ValueError"
    by (simp add: py_int_def py_strip_def py_isspace_def split_sign_def digits_to_nat_def
          is_digit_def)
  have 1: "get_count u w = py_int b" if "redis_get (count_key u) w = Some b \<and> b \<noteq> []"
    using that by (simp add: get_count_def)
  have 2: "get_count u w = Inl ValueError" if "redis_get (count_key u) w = Some ''<html>''"
    using that p by (simp add: get_count_def)
  have 3: "get_count u (run ops fresh) = Inr (int (count_list (page_urls ops) u))"
    by (simp add: get_count_run redis_get_fresh)
  from 1 p 2 3 show ?thesis by blast
qed

theorem get_count_raises_on_malformed_value_witness:
  "get_count ''x''
     (fresh\<lparr>db := (db fresh)(count_key ''x'' := Some \<lparr>payload = ''<html>'', expire_at = None\<rparr>)\<rparr>)
     = Inl ValueError
   \<and> get_count ''x''
     (fresh\<lparr>db := (db fresh)(count_key ''x'' := Some \<lparr>payload = ''<html>'', expire_at = None\<rparr>)\<rparr>)
     = py_int ''<html>''
   \<and> get_count ''x''
     (run [GetPage ''count:x'' (Inr \<lparr>status_code = 200, resp_text = ''<html>''\<rparr>),
           GetPage ''x'' (Inr \<lparr>status_code = 200, resp_text = ''<html>''\<rparr>)] fresh) = Inr 1"
proof -
  let ?w = "fresh\<lparr>db := (db fresh)(count_key ''x'' := Some \<lparr>payload = ''<html>'', expire_at = None\<rparr>)\<rparr>"
  have g: "redis_get (count_key ''x'') ?w = Some ''<html>''"
    by (simp add: redis_get_def lookup_def live_def)
  have ne: "''<html>'' \<noteq> []" by simp
  from get_count_raises_on_malformed_value[of "''x''" ?w "''<html>''"
      "[GetPage ''count:x'' (Inr \<lparr>status_code = 200, resp_text = ''<html>''\<rparr>),
        GetPage ''x'' (Inr \<lparr>status_code = 200, resp_text = ''<html>''\<rparr>)]"] g ne
  show ?thesis by simp
qed

end
